theory Spec2Isabelle
  imports Main "HOL-Library.Log_Nat"
begin

section \<open>Python numbers: unbounded integers and binary64 floats\<close>

text \<open>
  The two sample services compute with Python \<open>int\<close> (unbounded) and Python \<open>float\<close>
  (IEEE 754 binary64, round to nearest, ties to even). A finite float is a sign, a
  mantissa \<open>m\<close> and the exponent \<open>e\<close> of its last bit: its value is \<open>\<plusminus> m * 2 ^ e\<close>.
  The sign is \<open>True\<close> for a negative number, so both zeros exist.
\<close>

datatype double = Finite bool int int | Infinity bool | NaN

definition emin :: int where
  "emin = -1074"

definition emax :: int where
  "emax = 971"

text \<open>
  The canonical representations: zero and the subnormal numbers have the least exponent,
  a normal number has a mantissa of exactly 53 bits.
\<close>

fun valid_double :: "double \<Rightarrow> bool" where
  "valid_double (Finite s m e) =
     (0 \<le> m \<and> m < 2 ^ 53 \<and> emin \<le> e \<and> e \<le> emax \<and> (e = emin \<or> 2 ^ 52 \<le> m))"
| "valid_double (Infinity s) = True"
| "valid_double NaN = True"

text \<open>
  \<open>round_double s n d\<close> is the float nearest to the rational \<open>\<plusminus> n / d\<close> (for \<open>0 \<le> n\<close> and \<open>0 < d\<close>),
  ties going to the even mantissa; a value that rounds beyond the largest finite float
  becomes an infinity. \<open>quot2 n d e\<close> is \<open>n / d / 2 ^ e\<close> as a fraction of integers.
\<close>

definition quot2 :: "int \<Rightarrow> int \<Rightarrow> int \<Rightarrow> int \<times> int" where
  "quot2 n d e = (n * 2 ^ nat (- e), d * 2 ^ nat e)"

definition round_exp :: "int \<Rightarrow> int \<Rightarrow> int" where
  "round_exp n d =
     (let e0 = bitlen n - bitlen d - 53;
          (a, b) = quot2 n d e0;
          e1 = (if 2 ^ 53 \<le> a div b then e0 + 1 else e0)
      in max e1 emin)"

definition round_double :: "bool \<Rightarrow> int \<Rightarrow> int \<Rightarrow> double" where
  "round_double s n d =
     (if n = 0 then Finite s 0 emin
      else
        let e = round_exp n d;
            (a, b) = quot2 n d e;
            q = a div b;
            r = a mod b;
            q' = (if b < 2 * r \<or> (2 * r = b \<and> odd q) then q + 1 else q);
            (m, e') = (if q' = 2 ^ 53 then (2 ^ 52, e + 1) else (q', e))
        in if emax < e' then Infinity s else Finite s m e')"

text \<open>A float literal of the source, written as a decimal \<open>n / 10 ^ k\<close>.\<close>

definition float_literal :: "int \<Rightarrow> nat \<Rightarrow> double" where
  "float_literal n k = round_double False n (10 ^ k)"

text \<open>The exact value \<open>\<plusminus> m * 2 ^ e\<close> rounded: the result of an arithmetic operation.\<close>

definition round_dyadic :: "bool \<Rightarrow> int \<Rightarrow> int \<Rightarrow> double" where
  "round_dyadic s m e = round_double s (m * 2 ^ nat e) (2 ^ nat (- e))"

fun is_zero :: "double \<Rightarrow> bool" where
  "is_zero (Finite s m e) = (m = 0)"
| "is_zero (Infinity s) = False"
| "is_zero NaN = False"

fun fmul :: "double \<Rightarrow> double \<Rightarrow> double" where
  "fmul NaN y = NaN"
| "fmul x NaN = NaN"
| "fmul (Infinity s) (Infinity t) = Infinity (s \<noteq> t)"
| "fmul (Infinity s) (Finite t m e) = (if m = 0 then NaN else Infinity (s \<noteq> t))"
| "fmul (Finite s m e) (Infinity t) = (if m = 0 then NaN else Infinity (s \<noteq> t))"
| "fmul (Finite s m e) (Finite t n f) = round_dyadic (s \<noteq> t) (m * n) (e + f)"

definition signed :: "bool \<Rightarrow> int \<Rightarrow> int" where
  "signed s m = (if s then - m else m)"

fun fadd :: "double \<Rightarrow> double \<Rightarrow> double" where
  "fadd NaN y = NaN"
| "fadd x NaN = NaN"
| "fadd (Infinity s) (Infinity t) = (if s = t then Infinity s else NaN)"
| "fadd (Infinity s) (Finite t m e) = Infinity s"
| "fadd (Finite s m e) (Infinity t) = Infinity t"
| "fadd (Finite s m e) (Finite t n f) =
     (let g = min e f;
          a = signed s m * 2 ^ nat (e - g) + signed t n * 2 ^ nat (f - g)
      in if a = 0 then Finite (s \<and> t) 0 emin
         else round_dyadic (a < 0) \<bar>a\<bar> g)"

datatype error = HTTPException int string | OverflowError | ValueError | ValidationError

text \<open>
  \<open>float(i)\<close> for an \<open>int\<close>: correctly rounded, and
  \<^verbatim>\<open>OverflowError: int too large to convert to float\<close> when the rounded value is not
  finite.
\<close>

definition float_of_int :: "int \<Rightarrow> error + double" where
  "float_of_int i =
     (case round_double (i < 0) \<bar>i\<bar> 1 of
        Infinity s \<Rightarrow> Inl OverflowError
      | x \<Rightarrow> Inr x)"

text \<open>A Python number as the arithmetic operators see it.\<close>

datatype pynum = PyInt int | PyFloat double

fun py_mul :: "pynum \<Rightarrow> pynum \<Rightarrow> error + pynum" where
  "py_mul (PyInt a) (PyInt b) = Inr (PyInt (a * b))"
| "py_mul (PyFloat x) (PyFloat y) = Inr (PyFloat (fmul x y))"
| "py_mul (PyFloat x) (PyInt b) =
     (case float_of_int b of Inl err \<Rightarrow> Inl err | Inr y \<Rightarrow> Inr (PyFloat (fmul x y)))"
| "py_mul (PyInt a) (PyFloat y) =
     (case float_of_int a of Inl err \<Rightarrow> Inl err | Inr x \<Rightarrow> Inr (PyFloat (fmul x y)))"

fun py_add :: "pynum \<Rightarrow> pynum \<Rightarrow> error + pynum" where
  "py_add (PyInt a) (PyInt b) = Inr (PyInt (a + b))"
| "py_add (PyFloat x) (PyFloat y) = Inr (PyFloat (fadd x y))"
| "py_add (PyFloat x) (PyInt b) =
     (case float_of_int b of Inl err \<Rightarrow> Inl err | Inr y \<Rightarrow> Inr (PyFloat (fadd x y)))"
| "py_add (PyInt a) (PyFloat y) =
     (case float_of_int a of Inl err \<Rightarrow> Inl err | Inr x \<Rightarrow> Inr (PyFloat (fadd x y)))"

text \<open>
  Truth value of a float: \<open>x or 0\<close> is \<open>x\<close> unless \<open>x\<close> is a zero; \<open>None or 0\<close> is \<open>0\<close>.
\<close>

definition or_0 :: "double option \<Rightarrow> pynum" where
  "or_0 t = (case t of None \<Rightarrow> PyInt 0
             | Some x \<Rightarrow> if is_zero x then PyInt 0 else PyFloat x)"

text \<open>\<open>==\<close> on numbers: numeric, so both zeros are equal and a NaN equals nothing.\<close>

fun feq :: "double \<Rightarrow> double \<Rightarrow> bool" where
  "feq NaN y = False"
| "feq x NaN = False"
| "feq (Infinity s) (Infinity t) = (s = t)"
| "feq (Infinity s) (Finite t m e) = False"
| "feq (Finite s m e) (Infinity t) = False"
| "feq (Finite s m e) (Finite t n f) =
     (let g = min e f
      in signed s m * 2 ^ nat (e - g) = signed t n * 2 ^ nat (f - g))"

fun feq_int :: "double \<Rightarrow> int \<Rightarrow> bool" where
  "feq_int (Finite s m e) i =
     (signed s m * 2 ^ nat e = i * 2 ^ nat (- e))"
| "feq_int x i = False"

fun py_eq :: "pynum \<Rightarrow> pynum \<Rightarrow> bool" where
  "py_eq (PyInt a) (PyInt b) = (a = b)"
| "py_eq (PyFloat x) (PyFloat y) = feq x y"
| "py_eq (PyFloat x) (PyInt b) = feq_int x b"
| "py_eq (PyInt a) (PyFloat y) = feq_int y a"

text \<open>
  \<open>str(i)\<close> of an \<open>int\<close>, as an f-string substitutes it. The interpreter converts no
  integer of more than \<open>sys.int_max_str_digits\<close> decimal digits, 4300 unless it is set
  otherwise, which the services never do: past that it raises
  \<^verbatim>\<open>ValueError: Exceeds the limit (4300 digits) for integer string conversion\<close>.
  The sign does not count as a digit.
\<close>

definition int_max_str_digits :: nat where
  "int_max_str_digits = 4300"

definition digit_char :: "nat \<Rightarrow> char" where
  "digit_char d = ''0123456789'' ! d"

fun str_nat :: "nat \<Rightarrow> string" where
  "str_nat n = (if n < 10 then [digit_char n]
                else str_nat (n div 10) @ [digit_char (n mod 10)])"

declare str_nat.simps [simp del]

definition str_int :: "int \<Rightarrow> error + string" where
  "str_int i =
     (let ds = str_nat (nat \<bar>i\<bar>)
      in if int_max_str_digits < length ds then Inl ValueError
         else Inr (if i < 0 then CHR ''-'' # ds else ds))"

text \<open>
  What it is for a string to be the decimal numeral of an integer, said without the
  conversion: digits only, no leading zero, a minus sign exactly for a negative number,
  and the digits read in base ten give the magnitude.
\<close>

definition is_digit :: "char \<Rightarrow> bool" where
  "is_digit c = (c \<in> set ''0123456789'')"

definition digits_value :: "string \<Rightarrow> int" where
  "digits_value cs = foldl (\<lambda>a c. 10 * a + (of_char c - 48)) 0 cs"

fun canonical_digits :: "string \<Rightarrow> bool" where
  "canonical_digits [] = False"
| "canonical_digits (c # cs) =
     (list_all is_digit (c # cs) \<and> (if c = CHR ''0'' then cs = [] else True))"

fun is_decimal_of :: "string \<Rightarrow> int \<Rightarrow> bool" where
  "is_decimal_of [] i = False"
| "is_decimal_of (c # cs) i =
     (if c = CHR ''-'' then i < 0 \<and> canonical_digits cs \<and> digits_value cs = - i
      else 0 \<le> i \<and> canonical_digits (c # cs) \<and> digits_value (c # cs) = i)"

section \<open>The generic items service (fake_api_main.py)\<close>

record Item =
  name :: string
  description :: "string option"
  price :: double
  tax :: "double option"

text \<open>
  A \<open>float\<close> field of a model accepts an \<open>int\<close> and stores it as a float; the
  constructor fails with a validation error on a value it cannot convert.
\<close>

definition float_field :: "pynum \<Rightarrow> error + double" where
  "float_field v = (case v of PyFloat x \<Rightarrow> Inr x
                    | PyInt i \<Rightarrow> (case float_of_int i of Inl err \<Rightarrow> Inl ValidationError
                                 | Inr x \<Rightarrow> Inr x))"

definition Item_init ::
  "string \<Rightarrow> string option \<Rightarrow> pynum \<Rightarrow> pynum option \<Rightarrow> error + Item" where
  "Item_init n d p t =
     (case float_field p of Inl err \<Rightarrow> Inl err
      | Inr p' \<Rightarrow>
         (case t of None \<Rightarrow> Inr \<lparr>name = n, description = d, price = p', tax = None\<rparr>
          | Some v \<Rightarrow>
             (case float_field v of Inl err \<Rightarrow> Inl err
              | Inr t' \<Rightarrow> Inr \<lparr>name = n, description = d, price = p', tax = Some t'\<rparr>)))"

definition read_item :: "int \<Rightarrow> error + Item" where
  "read_item item_id =
     Item_init ''Sample'' (Some ''Example item'') (PyInt 100) (Some (PyInt 10))"

section \<open>The store service (shop_api_main.py)\<close>

record StoreItem =
  id' :: int
  name :: string
  description :: "string option"
  price :: double
  tax :: "double option"

record PurchaseOrder =
  product_id :: int
  buyer_name :: string
  quantity :: int

text \<open>The \<open>quantity\<close> field has the default 1.\<close>

definition PurchaseOrder_init :: "int \<Rightarrow> string \<Rightarrow> int option \<Rightarrow> PurchaseOrder" where
  "PurchaseOrder_init pid buyer q =
     \<lparr>product_id = pid, buyer_name = buyer,
      quantity = (case q of None \<Rightarrow> 1 | Some n \<Rightarrow> n)\<rparr>"

text \<open>The dictionary that \<open>purchase_item\<close> returns, one field for each key.\<close>

record order_confirmation =
  message :: string
  product :: StoreItem
  quantity :: int
  total_price :: pynum

definition store_inventory :: "StoreItem list" where
  "store_inventory =
     [\<lparr>id' = 1, name = ''Surface Laptop'',
       description =
         Some ''A sleek Microsoft laptop with an elegant design and robust performance.'',
       price = float_literal 99999 2, tax = Some (float_literal 9999 2)\<rparr>,
      \<lparr>id' = 2, name = ''Wireless Mouse'',
       description = Some ''An ergonomic wireless mouse with long battery life.'',
       price = float_literal 4999 2, tax = Some (float_literal 499 2)\<rparr>,
      \<lparr>id' = 3, name = ''Pizza'',
       description = Some ''A tasteful argentinian style pizza.'',
       price = float_literal 999 2, tax = Some (float_literal 199 2)\<rparr>,
      \<lparr>id' = 4, name = ''Frico'',
       description = Some ''Delicacy from Udine.'',
       price = float_literal 999 2, tax = Some (float_literal 199 2)\<rparr>]"

text \<open>
  The module's list \<open>store_inventory\<close> is the state of the service: each endpoint takes
  it and returns it with its result.
\<close>

definition list_store_items :: "StoreItem list \<Rightarrow> (error + StoreItem list) \<times> StoreItem list" where
  "list_store_items inventory = (Inr inventory, inventory)"

text \<open>
  \<open>(product.price * order.quantity) + ((product.tax or 0) * order.quantity)\<close>, the left
  product first.
\<close>

definition compute_total_price :: "StoreItem \<Rightarrow> PurchaseOrder \<Rightarrow> error + pynum" where
  "compute_total_price p order =
     (case py_mul (PyFloat (price p)) (PyInt (PurchaseOrder.quantity order)) of
        Inl err \<Rightarrow> Inl err
      | Inr a \<Rightarrow>
         (case py_mul (or_0 (tax p)) (PyInt (PurchaseOrder.quantity order)) of
            Inl err \<Rightarrow> Inl err
          | Inr b \<Rightarrow> py_add a b))"

definition purchase_item ::
  "PurchaseOrder \<Rightarrow> StoreItem list \<Rightarrow> (error + order_confirmation) \<times> StoreItem list" where
  "purchase_item order inventory =
     (case find (\<lambda>item. id' item = product_id order) inventory of
        None \<Rightarrow>
          (case str_int (product_id order) of
             Inl err \<Rightarrow> (Inl err, inventory)
           | Inr s \<Rightarrow>
               (Inl (HTTPException 404 (''Product with ID '' @ s @ '' not found.'')),
                inventory))
      | Some p \<Rightarrow>
          (case compute_total_price p order of
             Inl err \<Rightarrow> (Inl err, inventory)
           | Inr amount \<Rightarrow>
               (Inr \<lparr>message = ''Thank you '' @ buyer_name order @ '' for your purchase!'',
                     product = p,
                     quantity = PurchaseOrder.quantity order,
                     total_price = amount\<rparr>,
                inventory)))"

text \<open>
  The formula the specification gives as an equivalent of the total:
  \<open>(product.price + effective_tax) * quantity\<close>.
\<close>

definition factored_total :: "double \<Rightarrow> double option \<Rightarrow> int \<Rightarrow> error + pynum" where
  "factored_total p t q =
     (case py_add (PyFloat p) (or_0 t) of
        Inl err \<Rightarrow> Inl err
      | Inr s \<Rightarrow> py_mul s (PyInt q))"

text \<open>
  The floats of an item are floats in their canonical representation, as every float of
  the program is.
\<close>

definition valid_item :: "StoreItem \<Rightarrow> bool" where
  "valid_item p = (valid_double (price p) \<and>
                   (case tax p of None \<Rightarrow> True | Some t \<Rightarrow> valid_double t))"

section \<open>Rounding to a float\<close>

text \<open>
  The exponent that \<open>round_exp\<close> picks puts the quotient below \<open>2 ^ 53\<close> and, above
  the least exponent, at or above \<open>2 ^ 52\<close>. From this: a rounded value is a canonical
  float, a value that is a float rounds to itself, and an integer rounds to an infinity
  exactly from \<open>2 ^ 1024 - 2 ^ 970\<close> on.
\<close>

lemma two_powr_int: "2 powr (real_of_int e) = 2 ^ nat e / 2 ^ nat (- e)"
proof (cases "0 \<le> e")
  case True
  then have "2 powr (real_of_int e) = 2 powr (real (nat e))" by simp
  also have "\<dots> = 2 ^ nat e" by (simp only: powr_realpow [of 2, simplified])
  finally show ?thesis using True by simp
next
  case False
  then have "2 powr (real_of_int e) = 1 / 2 powr (real (nat (- e)))"
    by (simp add: powr_minus_divide)
  also have "\<dots> = 1 / 2 ^ nat (- e)" by (simp only: powr_realpow [of 2, simplified])
  finally show ?thesis using False by simp
qed

lemma quot2_real:
  assumes "0 < d" and "quot2 n d e = (a, b)"
  shows "0 < b" and "real_of_int a / real_of_int b = real_of_int n / real_of_int d / 2 powr (real_of_int e)"
proof -
  from assms(2) have a: "a = n * 2 ^ nat (- e)" and b: "b = d * 2 ^ nat e"
    by (simp_all add: quot2_def)
  show "0 < b" using assms(1) b by simp
  show "real_of_int a / real_of_int b = real_of_int n / real_of_int d / 2 powr (real_of_int e)"
    unfolding a b two_powr_int by simp
qed

lemma quot2_div:
  assumes "0 < d" and "quot2 n d e = (a, b)"
  shows "a div b = \<lfloor>real_of_int n / real_of_int d / 2 powr (real_of_int e)\<rfloor>"
  using quot2_real [OF assms] by (metis floor_divide_of_int_eq)


lemma two_powr_nat: "0 \<le> e \<Longrightarrow> 2 powr (real_of_int e) = real_of_int (2 ^ nat e)"
  unfolding two_powr_int by simp

lemma bitlen_real_bounds:
  assumes "0 < n"
  shows "2 powr (real_of_int (bitlen n - 1)) \<le> real_of_int n"
    and "real_of_int n < 2 powr (real_of_int (bitlen n))"
proof -
  have pos: "1 \<le> bitlen n" using assms bitlen_eq_zero_iff [of n] bitlen_nonneg [of n] by linarith
  then have k: "0 \<le> bitlen n - 1" and k': "0 \<le> bitlen n" by simp_all
  have lo: "(2::int) ^ nat (bitlen n - 1) \<le> n" and hi: "n < 2 ^ nat (bitlen n)"
    using bitlen_bounds [OF assms] by simp_all
  show "2 powr (real_of_int (bitlen n - 1)) \<le> real_of_int n"
    unfolding two_powr_nat [OF k] using lo by (simp only: of_int_le_iff)
  show "real_of_int n < 2 powr (real_of_int (bitlen n))"
    unfolding two_powr_nat [OF k'] using hi by (simp only: of_int_less_iff)
qed

lemma two_powr_shift: "2 powr (real_of_int (e + k)) = 2 powr (real_of_int e) * 2 powr (real_of_int k)"
  by (simp add: powr_add)

lemma round_exp_bounds:
  assumes "0 < n" and "0 < d"
  shows "emin \<le> round_exp n d"
    and "real_of_int n / real_of_int d < 2 ^ 53 * 2 powr (real_of_int (round_exp n d))"
    and "round_exp n d = emin \<or>
         2 ^ 52 * 2 powr (real_of_int (round_exp n d)) \<le> real_of_int n / real_of_int d"
proof -
  define v where "v = real_of_int n / real_of_int d"
  define e0 where "e0 = bitlen n - bitlen d - 53"
  obtain a b where ab: "quot2 n d e0 = (a, b)" by (cases "quot2 n d e0")
  define e1 where "e1 = (if 2 ^ 53 \<le> a div b then e0 + 1 else e0)"
  have re: "round_exp n d = max e1 emin"
    by (simp add: round_exp_def Let_def e0_def [symmetric] ab e1_def)
  have dpos: "0 < real_of_int d" using assms(2) by simp
  have p0: "0 < 2 powr (real_of_int e0)" by simp
  have q: "a div b = \<lfloor>v / 2 powr (real_of_int e0)\<rfloor>"
    using quot2_div [OF assms(2) ab] by (simp add: v_def)
  have "2 powr (real_of_int (bitlen n - 1)) \<le> real_of_int n"
    and "real_of_int d < 2 powr (real_of_int (bitlen d))"
    using bitlen_real_bounds [OF assms(1)] bitlen_real_bounds [OF assms(2)] by simp_all
  then have "2 powr (real_of_int (bitlen n - 1)) * real_of_int d
             < real_of_int n * 2 powr (real_of_int (bitlen d))"
    using dpos by (intro mult_le_less_imp_less) simp_all
  then have "2 powr (real_of_int (bitlen n - 1)) / 2 powr (real_of_int (bitlen d)) < v"
    using dpos by (simp add: v_def field_simps)
  moreover have "2 powr (real_of_int (bitlen n - 1)) / 2 powr (real_of_int (bitlen d))
                 = 2 ^ 52 * 2 powr (real_of_int e0)"
  proof -
    have "bitlen n - 1 = (e0 + 52) + bitlen d" by (simp add: e0_def)
    then have "2 powr (real_of_int (bitlen n - 1))
               = 2 powr (real_of_int e0) * 2 powr (real_of_int 52) * 2 powr (real_of_int (bitlen d))"
      by (simp only: two_powr_shift)
    moreover have "2 powr (real_of_int 52) = (2::real) ^ 52" by (simp add: two_powr_int)
    ultimately show ?thesis by simp
  qed
  ultimately have lo: "2 ^ 52 * 2 powr (real_of_int e0) < v" by simp
  have "real_of_int n < 2 powr (real_of_int (bitlen n))"
    and "2 powr (real_of_int (bitlen d - 1)) \<le> real_of_int d"
    using bitlen_real_bounds [OF assms(1)] bitlen_real_bounds [OF assms(2)] by simp_all
  then have "real_of_int n * 2 powr (real_of_int (bitlen d - 1))
             < 2 powr (real_of_int (bitlen n)) * real_of_int d"
    using assms(1) by (intro mult_less_le_imp_less) simp_all
  then have "v < 2 powr (real_of_int (bitlen n)) / 2 powr (real_of_int (bitlen d - 1))"
    using dpos by (simp add: v_def field_simps)
  moreover have "2 powr (real_of_int (bitlen n)) / 2 powr (real_of_int (bitlen d - 1))
                 = 2 ^ 54 * 2 powr (real_of_int e0)"
  proof -
    have "bitlen n = (e0 + 54) + (bitlen d - 1)" by (simp add: e0_def)
    then have "2 powr (real_of_int (bitlen n))
               = 2 powr (real_of_int e0) * 2 powr (real_of_int 54) * 2 powr (real_of_int (bitlen d - 1))"
      by (simp only: two_powr_shift)
    moreover have "2 powr (real_of_int 54) = (2::real) ^ 54" by (simp add: two_powr_int)
    ultimately show ?thesis by simp
  qed
  ultimately have hi: "v < 2 ^ 54 * 2 powr (real_of_int e0)" by simp
  have s1: "2 powr (real_of_int (e0 + 1)) = 2 * 2 powr (real_of_int e0)"
    by (simp add: powr_add)
  have e1_hi: "v < 2 ^ 53 * 2 powr (real_of_int e1)"
    and e1_lo: "2 ^ 52 * 2 powr (real_of_int e1) \<le> v"
  proof -
    show "v < 2 ^ 53 * 2 powr (real_of_int e1)"
    proof (cases "2 ^ 53 \<le> a div b")
      case True
      then show ?thesis using hi s1 by (simp add: e1_def)
    next
      case False
      then have "\<lfloor>v / 2 powr (real_of_int e0)\<rfloor> < 2 ^ 53" using q by simp
      then have "v / 2 powr (real_of_int e0) < 2 ^ 53"
        by (simp add: floor_less_iff)
      then show ?thesis using False p0 by (simp add: e1_def field_simps)
    qed
    show "2 ^ 52 * 2 powr (real_of_int e1) \<le> v"
    proof (cases "2 ^ 53 \<le> a div b")
      case True
      then have "2 ^ 53 \<le> \<lfloor>v / 2 powr (real_of_int e0)\<rfloor>" using q by simp
      then have "2 ^ 53 \<le> v / 2 powr (real_of_int e0)"
        by (simp add: le_floor_iff)
      then show ?thesis using True p0 s1 by (simp add: e1_def field_simps)
    next
      case False
      then show ?thesis using lo by (simp add: e1_def)
    qed
  qed
  show "emin \<le> round_exp n d" by (simp add: re)
  have "2 ^ 53 * 2 powr (real_of_int e1) \<le> 2 ^ 53 * 2 powr (real_of_int (max e1 emin))"
    by (intro mult_left_mono powr_mono) simp_all
  with e1_hi have "v < 2 ^ 53 * 2 powr (real_of_int (max e1 emin))" by (rule less_le_trans)
  then show "real_of_int n / real_of_int d < 2 ^ 53 * 2 powr (real_of_int (round_exp n d))"
    unfolding re v_def .
  show "round_exp n d = emin \<or>
        2 ^ 52 * 2 powr (real_of_int (round_exp n d)) \<le> real_of_int n / real_of_int d"
    using e1_lo unfolding re v_def by (cases "emin \<le> e1") (simp_all add: max_def)
qed


lemma div_powr_less: "x < c * 2 powr e \<Longrightarrow> x / 2 powr e < (c::real)"
  by (simp add: pos_divide_less_eq)

lemma div_powr_ge: "c * 2 powr e \<le> x \<Longrightarrow> (c::real) \<le> x / 2 powr e"
  by (simp add: pos_le_divide_eq)

lemma round_quot_bounds:
  assumes "0 < n" and "0 < d" and "quot2 n d (round_exp n d) = (a, b)"
  shows "0 < b" and "0 \<le> a div b" and "a div b < 2 ^ 53"
    and "round_exp n d = emin \<or> 2 ^ 52 \<le> a div b"
proof -
  define e where "e = round_exp n d"
  define w where "w = real_of_int n / real_of_int d / 2 powr (real_of_int e)"
  have q: "a div b = \<lfloor>w\<rfloor>"
    using quot2_div [OF assms(2,3)] by (simp add: w_def e_def)
  show "0 < b" using quot2_real(1) [OF assms(2,3)] .
  have "0 \<le> w" using assms(1,2) by (simp add: w_def)
  then show "0 \<le> a div b" unfolding q by simp
  have "real_of_int n / real_of_int d < 2 ^ 53 * 2 powr (real_of_int e)"
    using round_exp_bounds(2) [OF assms(1,2)] by (simp add: e_def)
  then have "w < 2 ^ 53" unfolding w_def by (rule div_powr_less)
  then show "a div b < 2 ^ 53" unfolding q by (simp add: floor_less_iff)
  show "round_exp n d = emin \<or> 2 ^ 52 \<le> a div b"
  proof (cases "round_exp n d = emin")
    case False
    then have "2 ^ 52 * 2 powr (real_of_int e) \<le> real_of_int n / real_of_int d"
      using round_exp_bounds(3) [OF assms(1,2)] by (simp add: e_def)
    then have "2 ^ 52 \<le> w" unfolding w_def by (rule div_powr_ge)
    then show ?thesis unfolding q by (simp add: le_floor_iff)
  qed simp
qed

lemma valid_round_double:
  assumes "0 \<le> n" and "0 < d"
  shows "valid_double (round_double s n d)"
proof (cases "n = 0")
  case True
  then show ?thesis by (simp add: round_double_def emin_def emax_def)
next
  case False
  with assms(1) have npos: "0 < n" by simp
  obtain a b where ab: "quot2 n d (round_exp n d) = (a, b)"
    by (cases "quot2 n d (round_exp n d)")
  note qb = round_quot_bounds [OF npos assms(2) ab]
  have ge: "emin \<le> round_exp n d" using round_exp_bounds(1) [OF npos assms(2)] .
  define q' where "q' = (if b < 2 * (a mod b) \<or> (2 * (a mod b) = b \<and> odd (a div b))
                          then a div b + 1 else a div b)"
  have q'lo: "a div b \<le> q'" and q'hi: "q' \<le> 2 ^ 53" and q'nn: "0 \<le> q'"
    using qb(2,3) by (simp_all add: q'_def)
  have rd: "round_double s n d =
              (if q' = 2 ^ 53
               then (if emax < round_exp n d + 1 then Infinity s
                     else Finite s (2 ^ 52) (round_exp n d + 1))
               else (if emax < round_exp n d then Infinity s
                     else Finite s q' (round_exp n d)))"
    using False by (simp add: round_double_def Let_def ab q'_def)
  show ?thesis
  proof (cases "q' = 2 ^ 53")
    case True
    then show ?thesis using ge by (simp add: rd)
  next
    case neq: False
    with q'hi have lt: "q' < 2 ^ 53" by simp
    have "round_exp n d = emin \<or> 2 ^ 52 \<le> q'" using qb(4) q'lo by auto
    then show ?thesis using neq lt q'nn ge by (auto simp: rd)
  qed
qed


lemma two_powr_step:
  assumes "e1 < (e2::int)"
  shows "2 * 2 powr (real_of_int e1) \<le> 2 powr (real_of_int e2)"
proof -
  have "2 * 2 powr (real_of_int e1) = 2 powr (real_of_int (e1 + 1))"
    by (simp add: powr_add)
  also have "\<dots> \<le> 2 powr (real_of_int e2)"
    using assms by (intro powr_mono) simp_all
  finally show ?thesis .
qed

lemma round_exp_exact:
  assumes "valid_double (Finite s m e)" and "0 < m" and "0 < n" and "0 < d"
    and "real_of_int n / real_of_int d = real_of_int m * 2 powr (real_of_int e)"
  shows "round_exp n d = e"
proof -
  define er where "er = round_exp n d"
  define v where "v = real_of_int n / real_of_int d"
  have v: "v = real_of_int m * 2 powr (real_of_int e)" using assms(5) by (simp add: v_def)
  have m_hi: "real_of_int m < 2 ^ 53" and e_lo: "emin \<le> e"
    and m_lo: "e = emin \<or> 2 ^ 52 \<le> real_of_int m"
    using assms(1) by (auto simp: of_int_less_iff [of m "2 ^ 53", simplified]
        of_int_le_iff [of "2 ^ 52" m, simplified])
  have r_lo: "emin \<le> er" and r_hi: "v < 2 ^ 53 * 2 powr (real_of_int er)"
    and r_n: "er = emin \<or> 2 ^ 52 * 2 powr (real_of_int er) \<le> v"
    using round_exp_bounds [OF assms(3,4)] by (simp_all add: er_def v_def)
  have "\<not> er < e"
  proof
    assume less: "er < e"
    then have "2 ^ 52 \<le> real_of_int m" using m_lo r_lo by auto
    then have "2 ^ 52 * 2 powr (real_of_int e) \<le> v"
      unfolding v by (intro mult_right_mono) simp_all
    moreover have "2 ^ 53 * 2 powr (real_of_int er) \<le> 2 ^ 52 * 2 powr (real_of_int e)"
      using two_powr_step [OF less] by simp
    ultimately show False using r_hi by linarith
  qed
  moreover have "\<not> e < er"
  proof
    assume less: "e < er"
    then have "2 ^ 52 * 2 powr (real_of_int er) \<le> v" using r_n e_lo by auto
    moreover have "2 ^ 53 * 2 powr (real_of_int e) \<le> 2 ^ 52 * 2 powr (real_of_int er)"
      using two_powr_step [OF less] by simp
    ultimately have "2 ^ 53 * 2 powr (real_of_int e) \<le> v" by linarith
    then have "2 ^ 53 * 2 powr (real_of_int e) \<le> real_of_int m * 2 powr (real_of_int e)"
      unfolding v .
    then have "2 ^ 53 \<le> real_of_int m"
      by (simp only: mult_le_cancel_right) (simp add: not_less)
    then show False using m_hi by simp
  qed
  ultimately show ?thesis by (simp add: er_def)
qed

lemma round_double_exact:
  assumes "valid_double (Finite s m e)" and "0 < m" and "0 < n" and "0 < d"
    and "real_of_int n / real_of_int d = real_of_int m * 2 powr (real_of_int e)"
  shows "round_double s n d = Finite s m e"
proof -
  have re: "round_exp n d = e" using round_exp_exact [OF assms] .
  obtain a b where ab: "quot2 n d e = (a, b)" by (cases "quot2 n d e")
  have bpos: "0 < b" using quot2_real(1) [OF assms(4) ab] .
  have "real_of_int a / real_of_int b = real_of_int m"
    using quot2_real(2) [OF assms(4) ab] assms(5) by simp
  then have "real_of_int a = real_of_int (m * b)" using bpos by (simp add: field_simps)
  then have a: "a = m * b" by (simp only: of_int_eq_iff)
  have dv: "a div b = m" and md: "a mod b = 0" using bpos by (simp_all add: a)
  have "m < 2 ^ 53" and "e \<le> emax" using assms(1) by simp_all
  then show ?thesis
    using assms(3) bpos by (simp add: round_double_def re ab Let_def dv md)
qed


lemma round_double_unfold:
  assumes "0 < n" and "quot2 n d (round_exp n d) = (a, b)"
    and "q' = (if b < 2 * (a mod b) \<or> (2 * (a mod b) = b \<and> odd (a div b))
               then a div b + 1 else a div b)"
  shows "round_double s n d =
           (if q' = 2 ^ 53
            then (if emax < round_exp n d + 1 then Infinity s
                  else Finite s (2 ^ 52) (round_exp n d + 1))
            else (if emax < round_exp n d then Infinity s
                  else Finite s q' (round_exp n d)))"
  using assms(1) by (simp add: round_double_def Let_def assms(2,3))

lemma round_up_boundary:
  fixes n b h k :: int
  assumes "b = 2 * h" and "0 < h" and "n div b < k" and "odd (k - 1)"
  shows "(if b < 2 * (n mod b) \<or> (2 * (n mod b) = b \<and> odd (n div b))
          then n div b + 1 else n div b) = k
         \<longleftrightarrow> (k - 1) * b + h \<le> n"
proof -
  define q where "q = n div b"
  define r where "r = n mod b"
  have bpos: "0 < b" using assms(1,2) by simp
  have n: "n = q * b + r" by (simp add: q_def r_def)
  have r: "0 \<le> r" "r < b" using bpos by (simp_all add: r_def)
  show ?thesis
  proof (cases "q = k - 1")
    case True
    then have "(k - 1) * b + h \<le> n \<longleftrightarrow> h \<le> r" using n by simp
    also have "\<dots> \<longleftrightarrow> b < 2 * r \<or> 2 * r = b" using assms(1) by auto
    finally show ?thesis using True assms(4) unfolding q_def [symmetric] r_def [symmetric]
      by auto
  next
    case False
    with assms(3) have "q + 1 \<le> k - 1" by (simp add: q_def)
    then have "(q + 1) * b \<le> (k - 1) * b" using bpos by (intro mult_right_mono) simp_all
    then have "n < (k - 1) * b" using n r by (simp add: algebra_simps)
    then have "\<not> (k - 1) * b + h \<le> n" using assms(2) by simp
    then show ?thesis using False assms(3) unfolding q_def [symmetric] r_def [symmetric]
      by auto
  qed
qed

lemma round_int_overflow:
  assumes "0 < n"
  shows "round_double s n 1 = Infinity s \<longleftrightarrow> 2 ^ 1024 - 2 ^ 970 \<le> n"
    and "round_double s n 1 \<noteq> Infinity (\<not> s)"
proof -
  define e where "e = round_exp n 1"
  obtain a b where ab: "quot2 n 1 e = (a, b)" by (cases "quot2 n 1 e")
  define q' where "q' = (if b < 2 * (a mod b) \<or> (2 * (a mod b) = b \<and> odd (a div b))
                          then a div b + 1 else a div b)"
  have rd: "round_double s n 1 =
              (if q' = 2 ^ 53
               then (if emax < e + 1 then Infinity s else Finite s (2 ^ 52) (e + 1))
               else (if emax < e then Infinity s else Finite s q' e))"
    using round_double_unfold [OF assms ab [unfolded e_def] q'_def] by (simp add: e_def)
  show "round_double s n 1 \<noteq> Infinity (\<not> s)" by (simp add: rd)
  have hi: "real_of_int n < 2 ^ 53 * 2 powr (real_of_int e)"
    and lo: "e = emin \<or> 2 ^ 52 * 2 powr (real_of_int e) \<le> real_of_int n"
    using round_exp_bounds(2,3) [OF assms, of 1] by (simp_all add: e_def)
  consider (big) "972 \<le> e" | (small) "e \<le> 970" | (top) "e = 971" by linarith
  then show "round_double s n 1 = Infinity s \<longleftrightarrow> 2 ^ 1024 - 2 ^ 970 \<le> n"
  proof cases
    case big
    then have "2 ^ 52 * 2 powr (real_of_int 972) \<le> 2 ^ 52 * 2 powr (real_of_int e)"
      by (intro mult_left_mono powr_mono) simp_all
    also have "\<dots> \<le> real_of_int n"
      using lo big by (simp add: emin_def)
    finally have "2 ^ 52 * 2 powr (real_of_int 972) \<le> real_of_int n" .
    then have "real_of_int (2 ^ 1024) \<le> real_of_int n"
      unfolding two_powr_nat [of 972, simplified] by simp
    then have "2 ^ 1024 \<le> n" by (simp only: of_int_le_iff)
    then have "2 ^ 1024 - 2 ^ 970 \<le> n" by simp
    then show ?thesis using big by (simp add: rd emax_def)
  next
    case small
    then have "2 ^ 53 * 2 powr (real_of_int e) \<le> 2 ^ 53 * 2 powr (real_of_int 970)"
      by (intro mult_left_mono powr_mono) simp_all
    with hi have "real_of_int n < 2 ^ 53 * 2 powr (real_of_int 970)" by (rule less_le_trans)
    then have "real_of_int n < real_of_int (2 ^ 1023)"
      unfolding two_powr_nat [of 970, simplified] by simp
    then have "n < 2 ^ 1023" by (simp only: of_int_less_iff)
    then have "\<not> 2 ^ 1024 - 2 ^ 970 \<le> n" by simp
    then show ?thesis using small by (simp add: rd emax_def)
  next
    case top
    have a: "a = n" and b: "b = 2 * 2 ^ 970" using ab by (simp_all add: quot2_def top)
    have "a div b < 2 ^ 53"
      using round_quot_bounds(3) [OF assms, of 1 a b] ab by (simp add: e_def)
    then have "q' = 2 ^ 53 \<longleftrightarrow> (2 ^ 53 - 1) * b + 2 ^ 970 \<le> n"
      unfolding q'_def a by (intro round_up_boundary [OF b [unfolded a]]) simp_all
    also have "(2 ^ 53 - 1) * b + 2 ^ 970 = (2 ^ 1024 - 2 ^ 970 :: int)"
      by (simp add: b)
    finally show ?thesis by (simp add: rd top emax_def)
  qed
qed


lemma float_of_int_cases:
  "(float_of_int i = Inl OverflowError \<and> 2 ^ 1024 - 2 ^ 970 \<le> \<bar>i\<bar>) \<or>
   (\<exists>x. float_of_int i = Inr x \<and> valid_double x \<and> \<bar>i\<bar> < 2 ^ 1024 - 2 ^ 970)"
proof (cases "i = 0")
  case True
  then show ?thesis by (simp add: float_of_int_def round_double_def emin_def emax_def)
next
  case False
  then have pos: "0 < \<bar>i\<bar>" by simp
  have v: "valid_double (round_double (i < 0) \<bar>i\<bar> 1)"
    by (rule valid_round_double) simp_all
  note ov = round_int_overflow [OF pos, of "i < 0"]
  show ?thesis
  proof (cases "round_double (i < 0) \<bar>i\<bar> 1")
    case (Finite s m e)
    then show ?thesis using v ov(1) by (simp add: float_of_int_def)
  next
    case (Infinity s)
    then show ?thesis using ov by (cases "s = (i < 0)") (auto simp: float_of_int_def)
  next
    case NaN
    then show ?thesis using ov(1) by (simp add: float_of_int_def)
  qed
qed

lemma float_of_int_overflow:
  "float_of_int i = Inl OverflowError \<longleftrightarrow> 2 ^ 1024 - 2 ^ 970 \<le> \<bar>i\<bar>"
  using float_of_int_cases [of i] by auto

lemma float_of_int_finite:
  assumes "\<bar>i\<bar> < 2 ^ 1024 - 2 ^ 970"
  obtains x where "float_of_int i = Inr x" and "valid_double x"
  using float_of_int_cases [of i] assms by auto

lemma round_dyadic_exact:
  assumes "valid_double (Finite s m e)" and "0 < m" and "0 < k"
    and "real_of_int k * 2 powr (real_of_int f) = real_of_int m * 2 powr (real_of_int e)"
  shows "round_dyadic s k f = Finite s m e"
proof -
  have "real_of_int (k * 2 ^ nat f) / real_of_int (2 ^ nat (- f))
        = real_of_int k * 2 powr (real_of_int f)"
    by (simp add: two_powr_int)
  then show ?thesis
    unfolding round_dyadic_def using assms
    by (intro round_double_exact) simp_all
qed

lemma float_of_int_1: "float_of_int 1 = Inr (Finite False (2 ^ 52) (- 52))"
  by code_simp

lemma fmul_one:
  assumes "valid_double x"
  shows "fmul x (Finite False (2 ^ 52) (- 52)) = x"
proof (cases x)
  case (Finite s m e)
  show ?thesis
  proof (cases "m = 0")
    case True
    with assms Finite have "e = emin" by simp
    with True show ?thesis by (simp add: Finite round_dyadic_def round_double_def)
  next
    case False
    with assms Finite have mpos: "0 < m" by simp
    have p: "(2::real) powr (real_of_int (- 52)) = 1 / 2 ^ 52"
      unfolding two_powr_int by simp
    have "real_of_int (m * 2 ^ 52) * 2 powr (real_of_int (e + - 52))
          = real_of_int m * 2 powr (real_of_int e)"
      unfolding two_powr_shift p by simp
    then have "round_dyadic s (m * 2 ^ 52) (e + - 52) = Finite s m e"
      using assms mpos unfolding Finite by (intro round_dyadic_exact) simp_all
    then show ?thesis by (simp add: Finite)
  qed
qed (simp_all)

lemma valid_round_dyadic: "0 \<le> m \<Longrightarrow> valid_double (round_dyadic s m e)"
  unfolding round_dyadic_def by (intro valid_round_double) simp_all

lemma valid_fadd: "valid_double (fadd x y)"
proof (cases x)
  case (Finite s m e)
  show ?thesis
  proof (cases y)
    case (Finite t n f)
    then show ?thesis using \<open>x = Finite s m e\<close>
      by (simp add: Let_def valid_round_dyadic emin_def emax_def)
  qed (simp_all add: \<open>x = Finite s m e\<close>)
next
  case (Infinity s)
  then show ?thesis by (cases y) simp_all
next
  case NaN
  then show ?thesis by simp
qed


lemma float_of_int_0: "float_of_int 0 = Inr (Finite False 0 emin)"
  by (simp add: float_of_int_def round_double_def)

lemma py_mul_float_1:
  assumes "valid_double x"
  shows "py_mul (PyFloat x) (PyInt 1) = Inr (PyFloat x)"
  using fmul_one [OF assms] by (simp add: float_of_int_1)

section \<open>Decimal numerals\<close>

text \<open>
  The digits of \<open>str_nat n\<close> are as many as the powers of ten say, they are the canonical
  numeral of \<open>n\<close>, and so \<open>str_int\<close> fails exactly from \<open>10 ^ int_max_str_digits\<close> on and
  otherwise gives the decimal numeral of its argument.
\<close>

lemma str_nat_nonempty: "str_nat n \<noteq> []"
  by (subst str_nat.simps) simp

lemma str_nat_length_bounds:
  "n < 10 ^ length (str_nat n) \<and> (10 \<le> n \<longrightarrow> 10 ^ (length (str_nat n) - 1) \<le> n)"
proof (induction n rule: str_nat.induct)
  case (1 n)
  show ?case
  proof (cases "n < 10")
    case True
    then show ?thesis by (subst (1 2) str_nat.simps) simp
  next
    case False
    define k where "k = length (str_nat (n div 10))"
    have kpos: "0 < k" using str_nat_nonempty [of "n div 10"] by (simp add: k_def)
    have len: "length (str_nat n) = Suc k"
      using False by (subst str_nat.simps) (simp add: k_def)
    have hi: "n div 10 < 10 ^ k" using 1 False by (simp add: k_def)
    have lo: "10 ^ (k - 1) \<le> n div 10"
    proof (cases "10 \<le> n div 10")
      case True
      then show ?thesis using 1 False by (simp add: k_def)
    next
      case small: False
      then have "str_nat (n div 10) = [digit_char (n div 10)]"
        by (subst str_nat.simps) simp
      then have "k = 1" by (simp add: k_def)
      then show ?thesis using False by simp
    qed
    have "n < 10 * 10 ^ k" using hi by simp
    moreover have "10 * 10 ^ (k - 1) \<le> n" using lo by simp
    moreover have "(10::nat) * 10 ^ (k - 1) = 10 ^ k"
      using kpos by (cases k) simp_all
    ultimately show ?thesis by (simp add: len)
  qed
qed

lemma str_nat_length_le: "length (str_nat n) \<le> Suc k \<longleftrightarrow> n < 10 ^ Suc k"
proof
  assume "length (str_nat n) \<le> Suc k"
  then have "(10::nat) ^ length (str_nat n) \<le> 10 ^ Suc k"
    by (intro power_increasing) simp_all
  then show "n < 10 ^ Suc k"
    using str_nat_length_bounds [of n] by linarith
next
  assume less: "n < 10 ^ Suc k"
  show "length (str_nat n) \<le> Suc k"
  proof (rule ccontr)
    assume "\<not> length (str_nat n) \<le> Suc k"
    then have long: "Suc k \<le> length (str_nat n) - 1" by simp
    have "10 \<le> n"
    proof (rule ccontr)
      assume "\<not> 10 \<le> n"
      then have "str_nat n = [digit_char n]" by (subst str_nat.simps) simp
      with long show False by simp
    qed
    then have "10 ^ (length (str_nat n) - 1) \<le> n"
      using str_nat_length_bounds [of n] by simp
    moreover have "(10::nat) ^ Suc k \<le> 10 ^ (length (str_nat n) - 1)"
      using long by (intro power_increasing) simp_all
    ultimately show False using less by linarith
  qed
qed


lemma digit_char_props:
  assumes "d < 10"
  shows "is_digit (digit_char d)" and "of_char (digit_char d) - 48 = int d"
    and "digit_char d = CHR ''0'' \<longleftrightarrow> d = 0"
proof -
  from assms have "d = 0 \<or> d = 1 \<or> d = 2 \<or> d = 3 \<or> d = 4 \<or> d = 5 \<or> d = 6 \<or> d = 7 \<or> d = 8 \<or> d = 9"
    by arith
  then show "is_digit (digit_char d)" and "of_char (digit_char d) - 48 = int d"
    and "digit_char d = CHR ''0'' \<longleftrightarrow> d = 0"
    by (auto simp: digit_char_def is_digit_def)
qed

lemma digits_value_snoc:
  "digits_value (cs @ [c]) = 10 * digits_value cs + (of_char c - 48)"
  by (simp add: digits_value_def)

lemma str_nat_digits:
  "list_all is_digit (str_nat n) \<and> digits_value (str_nat n) = int n \<and>
   (hd (str_nat n) = CHR ''0'' \<longrightarrow> n = 0)"
proof (induction n rule: str_nat.induct)
  case (1 n)
  show ?case
  proof (cases "n < 10")
    case True
    then have s: "str_nat n = [digit_char n]" by (subst str_nat.simps) simp
    show ?thesis
      using digit_char_props [OF True] by (simp add: s digits_value_def)
  next
    case False
    then have s: "str_nat n = str_nat (n div 10) @ [digit_char (n mod 10)]"
      by (subst str_nat.simps) simp
    have d: "n mod 10 < 10" by simp
    have ih: "list_all is_digit (str_nat (n div 10))"
      "digits_value (str_nat (n div 10)) = int (n div 10)"
      "hd (str_nat (n div 10)) = CHR ''0'' \<longrightarrow> n div 10 = 0"
      using 1 False by simp_all
    have "hd (str_nat n) = hd (str_nat (n div 10))"
      using str_nat_nonempty [of "n div 10"] by (simp add: s)
    moreover have "n div 10 \<noteq> 0" using False by simp
    ultimately have "hd (str_nat n) \<noteq> CHR ''0''" using ih(3) by simp
    moreover have "digits_value (str_nat n) = int n"
      unfolding s digits_value_snoc ih(2) digit_char_props(2) [OF d]
      by (simp add: zdiv_int zmod_int)
    ultimately show ?thesis
      using ih(1) digit_char_props(1) [OF d] by (simp add: s)
  qed
qed

lemma canonical_str_nat: "canonical_digits (str_nat n)"
proof (cases "str_nat n")
  case Nil
  then show ?thesis using str_nat_nonempty [of n] by simp
next
  case (Cons c cs)
  have "c = CHR ''0'' \<Longrightarrow> cs = []"
  proof -
    assume "c = CHR ''0''"
    then have "n = 0" using str_nat_digits [of n] Cons by simp
    then have "str_nat n = [digit_char 0]" by (subst str_nat.simps) simp
    then show "cs = []" using Cons by simp
  qed
  then show ?thesis using str_nat_digits [of n] Cons by auto
qed

lemma str_nat_no_sign: "str_nat n = c # cs \<Longrightarrow> c \<noteq> CHR ''-''"
  using str_nat_digits [of n] by (auto simp: is_digit_def)

lemma is_decimal_of_digits:
  "is_decimal_of (if i < 0 then CHR ''-'' # str_nat (nat \<bar>i\<bar>) else str_nat (nat \<bar>i\<bar>)) i"
proof -
  define n where "n = nat \<bar>i\<bar>"
  have n: "int n = \<bar>i\<bar>" by (simp add: n_def)
  have canon: "canonical_digits (str_nat n)" by (rule canonical_str_nat)
  have val: "digits_value (str_nat n) = \<bar>i\<bar>" using str_nat_digits [of n] n by simp
  show ?thesis
  proof (cases "i < 0")
    case True
    then show ?thesis unfolding n_def [symmetric] using canon val by simp
  next
    case False
    obtain c cs where s: "str_nat n = c # cs"
      using str_nat_nonempty [of n] by (cases "str_nat n") auto
    have "c \<noteq> CHR ''-''" using str_nat_no_sign [OF s] .
    moreover have "canonical_digits (c # cs)" using canon by (simp only: s)
    moreover have "digits_value (c # cs) = i" using val False by (simp add: s)
    ultimately have "is_decimal_of (c # cs) i" using False by simp
    then show ?thesis unfolding n_def [symmetric] using False by (simp add: s)
  qed
qed

lemma str_int_cases:
  "(str_int i = Inl ValueError \<and> 10 ^ int_max_str_digits \<le> \<bar>i\<bar>) \<or>
   (\<exists>s. str_int i = Inr s \<and> is_decimal_of s i \<and> \<bar>i\<bar> < 10 ^ int_max_str_digits)"
proof -
  obtain k where k: "int_max_str_digits = Suc k"
    by (cases int_max_str_digits) (simp_all add: int_max_str_digits_def)
  have "length (str_nat (nat \<bar>i\<bar>)) \<le> int_max_str_digits
          \<longleftrightarrow> nat \<bar>i\<bar> < 10 ^ int_max_str_digits"
    unfolding k by (rule str_nat_length_le)
  also have "\<dots> \<longleftrightarrow> \<bar>i\<bar> < 10 ^ int_max_str_digits"
  proof -
    have "int ((10::nat) ^ int_max_str_digits) = 10 ^ int_max_str_digits" by simp
    then show ?thesis by (metis abs_ge_zero nat_less_iff)
  qed
  finally have len: "length (str_nat (nat \<bar>i\<bar>)) \<le> int_max_str_digits
          \<longleftrightarrow> \<bar>i\<bar> < 10 ^ int_max_str_digits" .
  show ?thesis
  proof (cases "\<bar>i\<bar> < 10 ^ int_max_str_digits")
    case True
    then have "\<not> int_max_str_digits < length (str_nat (nat \<bar>i\<bar>))" using len by simp
    then have "str_int i = Inr (if i < 0 then CHR ''-'' # str_nat (nat \<bar>i\<bar>)
                                else str_nat (nat \<bar>i\<bar>))"
      by (simp add: str_int_def Let_def)
    then show ?thesis using True is_decimal_of_digits [of i] by blast
  next
    case False
    then have "int_max_str_digits < length (str_nat (nat \<bar>i\<bar>))" using len by simp
    then have "str_int i = Inl ValueError" by (simp add: str_int_def Let_def)
    then show ?thesis using False by simp
  qed
qed

lemma small_below_limit:
  fixes i :: int
  assumes "\<bar>i\<bar> < 1000"
  shows "\<bar>i\<bar> < 10 ^ int_max_str_digits"
proof -
  have "(10::int) ^ 3 \<le> 10 ^ int_max_str_digits"
    by (intro power_increasing) (simp_all add: int_max_str_digits_def)
  then have "(1000::int) \<le> 10 ^ int_max_str_digits" by simp
  with assms show ?thesis by (rule less_le_trans)
qed

section \<open>The purchase endpoint\<close>

lemma purchase_item_snd: "snd (purchase_item order inventory) = inventory"
  by (simp add: purchase_item_def split: option.splits sum.splits)

text \<open>
  Claim C1, as the code has it. When the scan finds the item \<open>p\<close>, the first of the
  inventory with the order's \<open>product_id\<close>, and the quantity converts to a float
  (its magnitude is below \<open>2 ^ 1024 - 2 ^ 970\<close>), the purchase succeeds with product \<open>p\<close>
  and the total is the float sum \<open>price * quantity + (tax or 0) * quantity\<close>, each
  product and the sum rounded; the tax term is \<open>0\<close> when the tax is absent or zero.
\<close>

theorem purchase_item_total:
  assumes "find (\<lambda>item. id' item = product_id order) inventory = Some p"
    and "\<bar>PurchaseOrder.quantity order\<bar> < 2 ^ 1024 - 2 ^ 970"
  shows "\<exists>q c. float_of_int (PurchaseOrder.quantity order) = Inr q \<and>
           purchase_item order inventory = (Inr c, inventory) \<and>
           product c = p \<and>
           total_price c =
             PyFloat (fadd (fmul (price p) q)
                       (case tax p of None \<Rightarrow> Finite False 0 emin
                        | Some t \<Rightarrow> if is_zero t then Finite False 0 emin else fmul t q))"
proof -
  obtain q where q: "float_of_int (PurchaseOrder.quantity order) = Inr q"
    using float_of_int_finite [OF assms(2)] by blast
  have "compute_total_price p order =
          Inr (PyFloat (fadd (fmul (price p) q)
                 (case tax p of None \<Rightarrow> Finite False 0 emin
                  | Some t \<Rightarrow> if is_zero t then Finite False 0 emin else fmul t q)))"
    by (simp add: compute_total_price_def or_0_def q float_of_int_0 split: option.splits)
  then show ?thesis using q assms(1) by (simp add: purchase_item_def)
qed

theorem purchase_item_total_witness:
  "find (\<lambda>item. id' item = 3) store_inventory = Some (store_inventory ! 2) \<and>
   \<bar>7 :: int\<bar> < 2 ^ 1024 - 2 ^ 970 \<and>
   (\<exists>q c. float_of_int 7 = Inr q \<and>
      purchase_item \<lparr>product_id = 3, buyer_name = ''Bob'', quantity = 7\<rparr> store_inventory =
        (Inr c, store_inventory) \<and>
      product c = store_inventory ! 2 \<and>
      total_price c =
        PyFloat (fadd (fmul (price (store_inventory ! 2)) q)
                  (case tax (store_inventory ! 2) of None \<Rightarrow> Finite False 0 emin
                   | Some t \<Rightarrow> if is_zero t then Finite False 0 emin else fmul t q)))"
proof -
  have h1: "find (\<lambda>item. id' item = product_id \<lparr>product_id = 3, buyer_name = ''Bob'', quantity = 7\<rparr>)
              store_inventory = Some (store_inventory ! 2)"
    by (simp add: store_inventory_def)
  have h2: "\<bar>PurchaseOrder.quantity \<lparr>product_id = 3, buyer_name = ''Bob'', quantity = 7\<rparr>\<bar>
              < 2 ^ 1024 - 2 ^ 970"
    by simp
  show ?thesis
    using h1 h2 purchase_item_total [OF h1 h2] by simp
qed

text \<open>
  The total is not always the float \<open>(price + (tax or 0)) * quantity\<close>: for seven pizzas of
  the seeded inventory the purchase returns \<open>83.86000000000001\<close>, the sum first gives
  \<open>83.86\<close>.
\<close>

theorem purchase_item_total_counterexample:
  "purchase_item \<lparr>product_id = 3, buyer_name = ''Bob'', quantity = 7\<rparr> store_inventory =
     (Inr \<lparr>message = ''Thank you Bob for your purchase!'',
           product = store_inventory ! 2, quantity = 7,
           total_price = PyFloat (Finite False 5901122886738904 (- 46))\<rparr>, store_inventory) \<and>
   factored_total (price (store_inventory ! 2)) (tax (store_inventory ! 2)) 7 =
     Inr (PyFloat (Finite False 5901122886738903 (- 46))) \<and>
   \<not> py_eq (PyFloat (Finite False 5901122886738904 (- 46)))
            (PyFloat (Finite False 5901122886738903 (- 46)))"
  by code_simp

text \<open>
  Claim C2, with the limit of the integer conversion. For an order whose \<open>product_id\<close> is
  the id of no item of the inventory: when the id has at most 4300 decimal digits, the
  purchase fails with the HTTP exception of status 404 whose detail is
  \<open>Product with ID {product_id} not found.\<close>, the id written as its decimal numeral; from
  \<open>10 ^ 4300\<close> on in magnitude, formatting the message raises \<open>ValueError\<close> instead.
\<close>

theorem purchase_item_not_found:
  assumes "product_id order \<notin> set (map id' inventory)"
  shows "((\<exists>s. purchase_item order inventory =
              (Inl (HTTPException 404 (''Product with ID '' @ s @ '' not found.'')),
               inventory) \<and>
             is_decimal_of s (product_id order)) \<longleftrightarrow>
          \<bar>product_id order\<bar> < 10 ^ int_max_str_digits) \<and>
         (purchase_item order inventory = (Inl ValueError, inventory) \<longleftrightarrow>
          10 ^ int_max_str_digits \<le> \<bar>product_id order\<bar>)"
proof -
  have none: "find (\<lambda>item. id' item = product_id order) inventory = None"
    using assms by (auto simp: find_None_iff image_iff)
  from str_int_cases [of "product_id order"] show ?thesis
  proof (elim disjE conjE exE)
    assume "str_int (product_id order) = Inl ValueError"
      and "10 ^ int_max_str_digits \<le> \<bar>product_id order\<bar>"
    then show ?thesis by (simp add: purchase_item_def none)
  next
    fix s
    assume "str_int (product_id order) = Inr s" and "is_decimal_of s (product_id order)"
      and "\<bar>product_id order\<bar> < 10 ^ int_max_str_digits"
    then show ?thesis by (auto simp: purchase_item_def none)
  qed
qed

theorem purchase_item_not_found_witness:
  "- 405 \<notin> set (map id' store_inventory) \<and>
   \<bar>- 405 :: int\<bar> < 10 ^ int_max_str_digits \<and>
   purchase_item \<lparr>product_id = - 405, buyer_name = ''Carl'', quantity = 1\<rparr> store_inventory =
     (Inl (HTTPException 404 ''Product with ID -405 not found.''), store_inventory) \<and>
   is_decimal_of ''-405'' (- 405)"
proof -
  have h: "product_id \<lparr>product_id = - 405, buyer_name = ''Carl'', quantity = 1\<rparr>
             \<notin> set (map id' store_inventory)"
    by (simp add: store_inventory_def)
  have b: "\<bar>- 405 :: int\<bar> < 10 ^ int_max_str_digits"
    by (rule small_below_limit) simp
  have v: "purchase_item \<lparr>product_id = - 405, buyer_name = ''Carl'', quantity = 1\<rparr>
             store_inventory =
           (Inl (HTTPException 404 ''Product with ID -405 not found.''), store_inventory)"
    by code_simp
  have d: "is_decimal_of ''-405'' (- 405)" by code_simp
  show ?thesis
    using h b v d purchase_item_not_found [OF h] by simp
qed

text \<open>An id of 4301 digits is in no inventory of the service and gives no 404.\<close>

theorem purchase_item_not_found_counterexample:
  "10 ^ int_max_str_digits \<notin> set (map id' store_inventory) \<and>
   purchase_item \<lparr>product_id = 10 ^ int_max_str_digits, buyer_name = ''Carl'', quantity = 1\<rparr>
     store_inventory = (Inl ValueError, store_inventory)"
proof -
  define pid :: int where "pid = 10 ^ int_max_str_digits"
  have "(10::int) ^ 1 \<le> 10 ^ int_max_str_digits"
    by (intro power_increasing) (simp_all add: int_max_str_digits_def)
  then have big: "10 \<le> pid" by (simp add: pid_def)
  have "10 ^ int_max_str_digits \<le> \<bar>pid\<bar>" by (simp add: pid_def)
  then have err: "str_int pid = Inl ValueError" using str_int_cases [of pid] by auto
  have "pid \<notin> set (map id' store_inventory) \<and>
        purchase_item \<lparr>product_id = pid, buyer_name = ''Carl'', quantity = 1\<rparr>
          store_inventory = (Inl ValueError, store_inventory)"
    using big err by (simp add: purchase_item_def store_inventory_def)
  then show ?thesis unfolding pid_def .
qed

text \<open>
  Claim C3, for the quantity 1. For an item with canonical floats and an order of
  quantity 1, the total \<open>price * quantity + (tax or 0) * quantity\<close> and the total
  \<open>(price + (tax or 0)) * quantity\<close> are the same result.
\<close>

theorem totals_agree_for_quantity_1:
  assumes "valid_item p" and "PurchaseOrder.quantity order = 1"
  shows "compute_total_price p order = factored_total (price p) (tax p) 1"
proof -
  have vp: "valid_double (price p)" using assms(1) by (simp add: valid_item_def)
  show ?thesis
  proof (cases "or_0 (tax p)")
    case (PyInt i)
    then have i: "i = 0" by (auto simp: or_0_def split: option.splits if_splits)
    show ?thesis
      unfolding compute_total_price_def factored_total_def assms(2) PyInt i
        py_mul_float_1 [OF vp]
      using fmul_one [OF valid_fadd, of "price p" "Finite False 0 emin"]
      by (simp add: float_of_int_0 float_of_int_1)
  next
    case (PyFloat x)
    then have "tax p = Some x" by (auto simp: or_0_def split: option.splits if_splits)
    with assms(1) have vx: "valid_double x" by (simp add: valid_item_def)
    show ?thesis
      unfolding compute_total_price_def factored_total_def assms(2) PyFloat
        py_mul_float_1 [OF vp] py_mul_float_1 [OF vx]
      using fmul_one [OF valid_fadd, of "price p" x]
      by (simp add: float_of_int_1)
  qed
qed

theorem totals_agree_for_quantity_1_witness:
  "valid_item (store_inventory ! 2) \<and>
   compute_total_price (store_inventory ! 2) (PurchaseOrder_init 3 ''Bob'' None) =
     factored_total (price (store_inventory ! 2)) (tax (store_inventory ! 2)) 1 \<and>
   factored_total (price (store_inventory ! 2)) (tax (store_inventory ! 2)) 1 =
     Inr (PyFloat (float_literal 1198 2))"
proof -
  have h1: "valid_item (store_inventory ! 2)" by code_simp
  have h2: "PurchaseOrder.quantity (PurchaseOrder_init 3 ''Bob'' None) = 1"
    by (simp add: PurchaseOrder_init_def)
  have v: "factored_total (price (store_inventory ! 2)) (tax (store_inventory ! 2)) 1 =
             Inr (PyFloat (float_literal 1198 2))"
    by code_simp
  show ?thesis
    using h1 v totals_agree_for_quantity_1 [OF h1 h2] by simp
qed

text \<open>
  For other quantities the two can differ in the last bit: for eleven wireless mice of the
  seeded inventory the first is \<open>604.78\<close> and the second \<open>604.7800000000001\<close>.
\<close>

theorem totals_agree_counterexample:
  "compute_total_price (store_inventory ! 1)
     \<lparr>product_id = 2, buyer_name = ''Bob'', quantity = 11\<rparr> =
     Inr (PyFloat (Finite False 5319701137970954 (- 43))) \<and>
   factored_total (price (store_inventory ! 1)) (tax (store_inventory ! 1)) 11 =
     Inr (PyFloat (Finite False 5319701137970955 (- 43))) \<and>
   \<not> py_eq (PyFloat (Finite False 5319701137970954 (- 43)))
            (PyFloat (Finite False 5319701137970955 (- 43)))"
  by code_simp

text \<open>
  Claim C4. Scenario B: the inventory holds the one item
  \<open>{id: 3, name: "Pizza", price: 9.99, tax: 1.99}\<close> and Bob orders item 3 without a
  quantity. The purchase succeeds with quantity 1, and the total is the float \<open>11.98\<close>.
\<close>

theorem scenario_b_total:
  "purchase_item (PurchaseOrder_init 3 ''Bob'' None)
     [\<lparr>id' = 3, name = ''Pizza'', description = None,
       price = float_literal 999 2, tax = Some (float_literal 199 2)\<rparr>] =
   (Inr \<lparr>message = ''Thank you Bob for your purchase!'',
         product = \<lparr>id' = 3, name = ''Pizza'', description = None,
                    price = float_literal 999 2, tax = Some (float_literal 199 2)\<rparr>,
         quantity = 1,
         total_price = PyFloat (float_literal 1198 2)\<rparr>,
    [\<lparr>id' = 3, name = ''Pizza'', description = None,
      price = float_literal 999 2, tax = Some (float_literal 199 2)\<rparr>])"
  by code_simp

text \<open>
  Claim C5. A successful purchase returns the message
  \<open>Thank you {buyer_name} for your purchase!\<close> with the buyer of the order, the quantity of
  the order, and as product the whole record of the first item of the inventory, in its
  order, whose id is the order's \<open>product_id\<close>.
\<close>

theorem purchase_item_confirmation:
  assumes "purchase_item order inventory = (Inr c, inventory')"
  shows "message c = ''Thank you '' @ buyer_name order @ '' for your purchase!'' \<and>
         order_confirmation.quantity c = PurchaseOrder.quantity order \<and>
         (\<exists>i < length inventory.
            product c = inventory ! i \<and> id' (inventory ! i) = product_id order \<and>
            (\<forall>j < i. id' (inventory ! j) \<noteq> product_id order))"
proof (cases "find (\<lambda>item. id' item = product_id order) inventory")
  case None
  with assms show ?thesis by (simp add: purchase_item_def split: sum.splits)
next
  case (Some p)
  then have first: "\<exists>i < length inventory.
      p = inventory ! i \<and> id' (inventory ! i) = product_id order \<and>
      (\<forall>j < i. id' (inventory ! j) \<noteq> product_id order)"
    by (auto simp: find_Some_iff)
  from assms Some obtain amount where "compute_total_price p order = Inr amount"
    and "c = \<lparr>message = ''Thank you '' @ buyer_name order @ '' for your purchase!'',
               product = p, quantity = PurchaseOrder.quantity order, total_price = amount\<rparr>"
    by (auto simp: purchase_item_def split: sum.splits)
  with first show ?thesis by simp
qed

theorem purchase_item_confirmation_witness:
  "purchase_item \<lparr>product_id = 4, buyer_name = ''Alice'', quantity = 2\<rparr> store_inventory =
     (Inr \<lparr>message = ''Thank you Alice for your purchase!'',
           product = store_inventory ! 3, quantity = 2,
           total_price = PyFloat (float_literal 2396 2)\<rparr>, store_inventory) \<and>
   message \<lparr>message = ''Thank you Alice for your purchase!'',
            product = store_inventory ! 3, quantity = 2,
            total_price = PyFloat (float_literal 2396 2)\<rparr> =
     ''Thank you Alice for your purchase!'' \<and>
   id' (store_inventory ! 3) = 4 \<and> id' (store_inventory ! 2) = 3"
proof -
  have h: "purchase_item \<lparr>product_id = 4, buyer_name = ''Alice'', quantity = 2\<rparr>
             store_inventory =
           (Inr \<lparr>message = ''Thank you Alice for your purchase!'',
                 product = store_inventory ! 3, quantity = 2,
                 total_price = PyFloat (float_literal 2396 2)\<rparr>, store_inventory)"
    by code_simp
  have i: "id' (store_inventory ! 3) = 4 \<and> id' (store_inventory ! 2) = 3"
    by (simp add: store_inventory_def)
  show ?thesis
    using h i purchase_item_confirmation [OF h] by simp
qed

text \<open>
  Claim C6, with the bound of the float conversion. For an order whose \<open>product_id\<close> is
  in the inventory, the purchase succeeds exactly when the magnitude of the quantity is
  below \<open>2 ^ 1024 - 2 ^ 970\<close>, zero and negative quantities included; from that bound on
  it fails with \<open>OverflowError\<close>, raised by the conversion of the quantity to a float.
\<close>

theorem purchase_item_succeeds_iff:
  assumes "product_id order \<in> set (map id' inventory)"
  shows "((\<exists>c. purchase_item order inventory = (Inr c, inventory)) \<longleftrightarrow>
            \<bar>PurchaseOrder.quantity order\<bar> < 2 ^ 1024 - 2 ^ 970) \<and>
         (purchase_item order inventory = (Inl OverflowError, inventory) \<longleftrightarrow>
            2 ^ 1024 - 2 ^ 970 \<le> \<bar>PurchaseOrder.quantity order\<bar>)"
proof -
  from assms obtain p where p: "find (\<lambda>item. id' item = product_id order) inventory = Some p"
    by (cases "find (\<lambda>item. id' item = product_id order) inventory")
       (auto simp: find_None_iff)
  show ?thesis
  proof (cases "\<bar>PurchaseOrder.quantity order\<bar> < 2 ^ 1024 - 2 ^ 970")
    case True
    then obtain q where q: "float_of_int (PurchaseOrder.quantity order) = Inr q"
      using float_of_int_finite by blast
    have "\<exists>a. compute_total_price p order = Inr a"
      by (simp add: compute_total_price_def or_0_def q float_of_int_0 split: option.splits)
    then have "\<exists>c. purchase_item order inventory = (Inr c, inventory)"
      using p by (auto simp: purchase_item_def)
    then show ?thesis using True by auto
  next
    case False
    then have "float_of_int (PurchaseOrder.quantity order) = Inl OverflowError"
      by (simp add: float_of_int_overflow)
    then have "compute_total_price p order = Inl OverflowError"
      by (simp add: compute_total_price_def)
    then have "purchase_item order inventory = (Inl OverflowError, inventory)"
      using p by (simp add: purchase_item_def)
    then show ?thesis using False by simp
  qed
qed

theorem purchase_item_succeeds_iff_witness:
  "1 \<in> set (map id' store_inventory) \<and>
   \<bar>- 3 :: int\<bar> < 2 ^ 1024 - 2 ^ 970 \<and>
   (\<exists>c. purchase_item \<lparr>product_id = 1, buyer_name = ''Alice'', quantity = - 3\<rparr>
          store_inventory = (Inr c, store_inventory))"
proof -
  have h: "product_id \<lparr>product_id = 1, buyer_name = ''Alice'', quantity = - 3\<rparr>
             \<in> set (map id' store_inventory)"
    by (simp add: store_inventory_def)
  show ?thesis
    using h purchase_item_succeeds_iff [OF h] by simp
qed

text \<open>The quantity \<open>10 ^ 400\<close> for the first seeded item is such an order.\<close>

theorem purchase_item_overflow_counterexample:
  "1 \<in> set (map id' store_inventory) \<and>
   purchase_item \<lparr>product_id = 1, buyer_name = ''Alice'', quantity = 10 ^ 400\<rparr>
     store_inventory = (Inl OverflowError, store_inventory)"
proof -
  have "float_of_int (10 ^ 400) = Inl OverflowError"
    unfolding float_of_int_overflow by simp
  then show ?thesis
    by (simp add: purchase_item_def compute_total_price_def store_inventory_def)
qed

text \<open>
  Claim C7. An order built without a quantity is the order with quantity 1, and an order
  built with a quantity has that quantity. The purchase of the order without a quantity is
  the purchase of the order with quantity 1: on every inventory it fails when no item has
  the id, as any order does, and otherwise confirms quantity 1 and the total of one unit,
  the price and the tax each multiplied by the float \<open>1.0\<close>.
\<close>

theorem default_quantity:
  "PurchaseOrder_init pid buyer None =
     \<lparr>product_id = pid, buyer_name = buyer, quantity = 1\<rparr> \<and>
   PurchaseOrder_init pid buyer (Some q) =
     \<lparr>product_id = pid, buyer_name = buyer, quantity = q\<rparr> \<and>
   purchase_item (PurchaseOrder_init pid buyer None) inventory =
     purchase_item \<lparr>product_id = pid, buyer_name = buyer, quantity = 1\<rparr> inventory \<and>
   purchase_item (PurchaseOrder_init pid buyer None) inventory =
     (case find (\<lambda>item. id' item = pid) inventory of
        None \<Rightarrow>
          (case str_int pid of
             Inl err \<Rightarrow> (Inl err, inventory)
           | Inr s \<Rightarrow>
               (Inl (HTTPException 404 (''Product with ID '' @ s @ '' not found.'')),
                inventory))
      | Some p \<Rightarrow>
          (Inr \<lparr>message = ''Thank you '' @ buyer @ '' for your purchase!'',
                product = p,
                quantity = 1,
                total_price =
                  PyFloat (fadd (fmul (price p) (Finite False (2 ^ 52) (- 52)))
                            (case tax p of None \<Rightarrow> Finite False 0 emin
                             | Some t \<Rightarrow>
                                 if is_zero t then Finite False 0 emin
                                 else fmul t (Finite False (2 ^ 52) (- 52))))\<rparr>,
           inventory))"
  by (simp add: PurchaseOrder_init_def purchase_item_def compute_total_price_def or_0_def
      float_of_int_1 float_of_int_0 split: option.splits)

text \<open>
  Claim C8. A purchase leaves the inventory as it was, whatever its outcome: the listing
  is the same before and after, and a second purchase with the same order gives the
  result of the first.
\<close>

theorem purchase_item_pure:
  "snd (purchase_item order inventory) = inventory \<and>
   list_store_items (snd (purchase_item order inventory)) = list_store_items inventory \<and>
   purchase_item order (snd (purchase_item order inventory)) = purchase_item order inventory"
  by (simp add: purchase_item_snd)

section \<open>The listing endpoint\<close>

text \<open>
  Claim C9. The listing succeeds on every inventory and returns all of it, in its order,
  leaving it unchanged; for the seeded inventory these are the four items with the ids
  1, 2, 3, 4.
\<close>

theorem list_store_items_full:
  "list_store_items inventory = (Inr inventory, inventory) \<and>
   fst (list_store_items store_inventory) = Inr store_inventory \<and>
   map id' store_inventory = [1, 2, 3, 4] \<and>
   map StoreItem.name store_inventory =
     [''Surface Laptop'', ''Wireless Mouse'', ''Pizza'', ''Frico'']"
  by (simp add: list_store_items_def store_inventory_def)

section \<open>The items service\<close>

text \<open>
  Claim C10. Reading an item returns, for every integer id, the same item: name
  \<open>Sample\<close>, description \<open>Example item\<close>, price 100 and tax 10, both stored as floats.
  No id gives an error.
\<close>

theorem read_item_constant:
  "read_item item_id =
     Inr \<lparr>Item.name = ''Sample'', description = Some ''Example item'',
          price = float_literal 100 0, tax = Some (float_literal 10 0)\<rparr> \<and>
   feq_int (float_literal 100 0) 100 \<and> feq_int (float_literal 10 0) 10"
  unfolding read_item_def by code_simp

end
